theory Spec2Isabelle
  imports Main
begin

section \<open>The object pool of pool.go\<close>

text \<open>
  The pool keeps reusable objects in an idle queue (a \<open>container/list\<close>, newest entry at
  the front) and counts in \<open>active\<close> every object that is idle or handed out. The three
  callbacks \<open>New\<close>, \<open>TestOnBorrow\<close> and \<open>DropCallback\<close> and the clock \<open>nowFunc\<close> are
  supplied from outside and have effects of their own, so they are functions on an external
  world \<open>'w\<close> that every operation threads through. A Go value of type \<open>interface{}\<close> is an
  \<open>'a option\<close> (\<open>None\<close> is \<open>nil\<close>), a value of type \<open>error\<close> an \<open>error option\<close>, a nil
  function field is \<open>None\<close>. Go's \<open>int\<close>, \<open>time.Time\<close> and \<open>time.Duration\<close> are
  \<open>int\<close> (a time is a number of nanoseconds); the counters stay far from 64 bits.

  The mutex and the condition variable are not modelled: each call runs as if alone, and a
  call that reaches \<open>cond.Wait()\<close> ends with the outcome \<open>Blocked\<close>, the state being the
  one it leaves behind for the other callers; when it is woken it goes round the outer loop
  of \<open>Get\<close> again, which is a step of its own in a sequence of calls. A call of a nil
  function ends with the outcome \<open>Panicked\<close>. The callbacks do not call back into the
  pool, and they do not panic.
\<close>

subsection \<open>Data\<close>

type_synonym 'a iface = "'a option"

datatype error = ErrPoolClosed | ErrPoolExhausted | ErrOther string

record 'a idleObj =
  obj :: "'a iface"
  t :: int

record ('a, 'w) Pool =
  New :: "('w \<Rightarrow> ('a iface \<times> error option) \<times> 'w) option"
  TestOnBorrow :: "('a iface \<Rightarrow> 'w \<Rightarrow> error option \<times> 'w) option"
  DropCallback :: "('a iface \<Rightarrow> 'w \<Rightarrow> 'w) option"
  MaxIdle :: int
  MaxActive :: int
  IdleTimeout :: int
  Wait :: bool
  closed :: bool
  active :: int
  idle :: "'a idleObj list"

text \<open>What a call of \<open>Get\<close> ends with: the pair it returns, the panic of calling a nil
  function, or the wait on the condition variable.\<close>

datatype 'a outcome = Returned "'a iface" "error option" | Panicked | Blocked

text \<open>What the loop over the idle queue ends with.\<close>

datatype 'a borrow = Borrowed "'a iface" | NoIdle

subsection \<open>Operations\<close>

text \<open>\<open>NewPool\<close>: every other field has Go's zero value.\<close>

definition NewPool ::
  "('w \<Rightarrow> ('a iface \<times> error option) \<times> 'w) option \<Rightarrow> int \<Rightarrow> ('a, 'w) Pool" where
  "NewPool newFunc maxIdle =
     \<lparr>New = newFunc, TestOnBorrow = None, DropCallback = None, MaxIdle = maxIdle,
      MaxActive = 0, IdleTimeout = 0, Wait = False, closed = False, active = 0, idle = []\<rparr>"

definition release :: "('a, 'w) Pool \<Rightarrow> ('a, 'w) Pool" where
  "release p = p\<lparr>active := active p - 1\<rparr>"

text \<open>\<open>if drop != nil { drop(x) }\<close>\<close>

definition call_drop :: "('a iface \<Rightarrow> 'w \<Rightarrow> 'w) option \<Rightarrow> 'a iface \<Rightarrow> 'w \<Rightarrow> 'w" where
  "call_drop cb x w = (case cb of None \<Rightarrow> w | Some d \<Rightarrow> d x w)"

text \<open>The loop of \<open>Get\<close> that clears expired entries (lines 50 to 67); the first argument
  counts the iterations that are left, \<open>n - i\<close>.\<close>

fun sweep_loop ::
  "('w \<Rightarrow> int \<times> 'w) \<Rightarrow> int \<Rightarrow> nat \<Rightarrow> ('a, 'w) Pool \<Rightarrow> 'w \<Rightarrow> ('a, 'w) Pool \<times> 'w" where
  "sweep_loop nowFunc timeout 0 p w = (p, w)"
| "sweep_loop nowFunc timeout (Suc k) p w =
     (if idle p = [] then (p, w)
      else
        let io = last (idle p); (now, w1) = nowFunc w in
        if now < t io + timeout then (p, w1)
        else sweep_loop nowFunc timeout k
               (release (p\<lparr>idle := butlast (idle p)\<rparr>))
               (call_drop (DropCallback p) (obj io) w1))"

definition timeout_sweep ::
  "('w \<Rightarrow> int \<times> 'w) \<Rightarrow> ('a, 'w) Pool \<Rightarrow> 'w \<Rightarrow> ('a, 'w) Pool \<times> 'w" where
  "timeout_sweep nowFunc p w =
     (if 0 < IdleTimeout p then sweep_loop nowFunc (IdleTimeout p) (length (idle p)) p w
      else (p, w))"

text \<open>The loop of \<open>Get\<close> that takes idle entries from the front (lines 72 to 91).\<close>

fun reuse_loop :: "nat \<Rightarrow> ('a, 'w) Pool \<Rightarrow> 'w \<Rightarrow> 'a borrow \<times> ('a, 'w) Pool \<times> 'w" where
  "reuse_loop 0 p w = (NoIdle, p, w)"
| "reuse_loop (Suc k) p w =
     (case idle p of
        [] \<Rightarrow> (NoIdle, p, w)
      | io # rest \<Rightarrow>
          let p1 = p\<lparr>idle := rest\<rparr> in
          (case TestOnBorrow p of
             None \<Rightarrow> (Borrowed (obj io), p1, w)
           | Some test \<Rightarrow>
               (case test (obj io) w of
                  (None, w1) \<Rightarrow> (Borrowed (obj io), p1, w1)
                | (Some e, w1) \<Rightarrow>
                    reuse_loop k (release p1) (call_drop (DropCallback p) (obj io) w1))))"

text \<open>Lines 100 to 110: reserve a slot, call the factory, give the slot back when it fails.\<close>

definition construct :: "('a, 'w) Pool \<Rightarrow> 'w \<Rightarrow> 'a outcome \<times> ('a, 'w) Pool \<times> 'w" where
  "construct p w =
     (let p1 = p\<lparr>active := active p + 1\<rparr> in
      case New p of
        None \<Rightarrow> (Panicked, p1, w)
      | Some newFunc \<Rightarrow>
          (case newFunc w of
             ((x, None), w1) \<Rightarrow> (Returned x None, p1, w1)
           | ((x, Some e), w1) \<Rightarrow> (Returned None (Some e), release p1, w1)))"

text \<open>One round of the outer \<open>for\<close> of \<open>Get\<close> (lines 71 to 122).\<close>

definition get_body :: "('a, 'w) Pool \<Rightarrow> 'w \<Rightarrow> 'a outcome \<times> ('a, 'w) Pool \<times> 'w" where
  "get_body p w =
     (case reuse_loop (length (idle p)) p w of
        (Borrowed x, p1, w1) \<Rightarrow> (Returned x None, p1, w1)
      | (NoIdle, p1, w1) \<Rightarrow>
          if closed p1 then (Returned None (Some ErrPoolClosed), p1, w1)
          else if MaxActive p1 = 0 \<or> active p1 < MaxActive p1 then construct p1 w1
          else if \<not> Wait p1 then (Returned None (Some ErrPoolExhausted), p1, w1)
          else (Blocked, p1, w1))"

text \<open>\<open>Get\<close> up to its first return or wait: \<open>drop\<close> and \<open>timeout\<close> are read once, at the
  start.\<close>

definition Get ::
  "('w \<Rightarrow> int \<times> 'w) \<Rightarrow> ('a, 'w) Pool \<Rightarrow> 'w \<Rightarrow> 'a outcome \<times> ('a, 'w) Pool \<times> 'w" where
  "Get nowFunc p w = (case timeout_sweep nowFunc p w of (p1, w1) \<Rightarrow> get_body p1 w1)"

text \<open>\<open>Put\<close> (lines 125 to 151): the entry that is trimmed is the one at the back.\<close>

definition Put ::
  "('w \<Rightarrow> int \<times> 'w) \<Rightarrow> 'a iface \<Rightarrow> ('a, 'w) Pool \<Rightarrow> 'w \<Rightarrow> ('a, 'w) Pool \<times> 'w" where
  "Put nowFunc x p w =
     (if \<not> closed p then
        (case nowFunc w of (now, w1) \<Rightarrow>
           let p1 = p\<lparr>idle := \<lparr>obj = x, t = now\<rparr> # idle p\<rparr> in
           if MaxIdle p1 < int (length (idle p1))
           then (release (p1\<lparr>idle := butlast (idle p1)\<rparr>),
                 call_drop (DropCallback p1) (obj (last (idle p1))) w1)
           else (p1, w1))
      else (release p, call_drop (DropCallback p) x w))"


text \<open>\<open>Close\<close> (lines 160 to 178) walks its copy of the list from \<open>Front()\<close> along
  \<open>Next()\<close>.\<close>

definition Close :: "('a, 'w) Pool \<Rightarrow> 'w \<Rightarrow> ('a, 'w) Pool \<times> 'w" where
  "Close p w =
     (let idle0 = idle p;
          p1 = p\<lparr>idle := [], closed := True, active := active p - int (length idle0)\<rparr>
      in (p1, case DropCallback p of
                None \<Rightarrow> w
              | Some d \<Rightarrow> fold (\<lambda>io. d (obj io)) idle0 w))"

subsection \<open>Sequences of calls\<close>

text \<open>The calls of the four methods, each run as a whole, and \<open>Resume\<close>: a caller of
  \<open>Get\<close> that was waiting at \<open>cond.Wait()\<close> is woken and goes round the outer loop of
  \<open>Get\<close> once more.\<close>

datatype 'a call = CallGet | CallPut "'a iface" | CallClose | CallActiveCount | Resume

fun step ::
  "('w \<Rightarrow> int \<times> 'w) \<Rightarrow> 'a call \<Rightarrow> ('a, 'w) Pool \<times> 'w \<Rightarrow> ('a, 'w) Pool \<times> 'w" where
  "step nowFunc CallGet (p, w) = snd (Get nowFunc p w)"
| "step nowFunc (CallPut x) (p, w) = Put nowFunc x p w"
| "step nowFunc CallClose (p, w) = Close p w"
| "step nowFunc CallActiveCount (p, w) = (p, w)"
| "step nowFunc Resume (p, w) = snd (get_body p w)"

definition exec ::
  "('w \<Rightarrow> int \<times> 'w) \<Rightarrow> 'a call list \<Rightarrow> ('a, 'w) Pool \<times> 'w \<Rightarrow> ('a, 'w) Pool \<times> 'w" where
  "exec nowFunc cs s = fold (step nowFunc) cs s"

text \<open>A pool nobody has used yet, whatever its configuration.\<close>

definition fresh :: "('a, 'w) Pool \<Rightarrow> bool" where
  "fresh p \<longleftrightarrow> \<not> closed p \<and> active p = 0 \<and> idle p = []"

text \<open>The objects a call of \<open>Get\<close> hands to its caller: one when the error is nil.\<close>

fun got :: "'a outcome \<Rightarrow> 'a iface list" where
  "got (Returned x None) = [x]"
| "got _ = []"


text \<open>The part of \<open>Get\<close> before it looks at \<open>closed\<close>: the sweep, then the loop over
  the idle queue.\<close>

definition idle_phase ::
  "('w \<Rightarrow> int \<times> 'w) \<Rightarrow> ('a, 'w) Pool \<Rightarrow> 'w \<Rightarrow> 'a borrow \<times> ('a, 'w) Pool \<times> 'w" where
  "idle_phase nowFunc p w =
     (case timeout_sweep nowFunc p w of (p1, w1) \<Rightarrow> reuse_loop (length (idle p1)) p1 w1)"

subsection \<open>The fixtures of pool_test.go\<close>

text \<open>The dialer counts the objects it has made and the objects that are open; an object
  is known by its number. The tests freeze the clock at a value of their choice.\<close>

record poolDialer =
  dialed :: nat
  opened :: int

definition dial :: "poolDialer \<Rightarrow> (nat iface \<times> error option) \<times> poolDialer" where
  "dial d = ((Some (dialed d), None), d\<lparr>dialed := dialed d + 1, opened := opened d + 1\<rparr>)"

definition drop_conn :: "nat iface \<Rightarrow> poolDialer \<Rightarrow> poolDialer" where
  "drop_conn x d = d\<lparr>opened := opened d - 1\<rparr>"

definition frozen_clock :: "int \<Rightarrow> 'w \<Rightarrow> int \<times> 'w" where
  "frozen_clock now w = (now, w)"

definition dialer0 :: poolDialer where
  "dialer0 = \<lparr>dialed = 0, opened = 0\<rparr>"

definition test_pool :: "(nat, poolDialer) Pool" where
  "test_pool = (NewPool (Some dial) 2)\<lparr>DropCallback := Some drop_conn\<rparr>"

text \<open>As in \<open>TestPoolMaxIdle\<close>: three objects taken, the first two given back.\<close>

definition two_idle :: "(nat, poolDialer) Pool \<times> poolDialer" where
  "two_idle = exec (frozen_clock 0)
     [CallGet, CallGet, CallGet, CallPut (Some 0), CallPut (Some 1)] (test_pool, dialer0)"

text \<open>As in \<open>TestPoolTimeout\<close>, with three objects given back at the times 0, 3 and 8.\<close>

definition aged_pool :: "(nat, poolDialer) Pool" where
  "aged_pool = test_pool\<lparr>MaxIdle := 3, IdleTimeout := 10, active := 3,
     idle := [\<lparr>obj = Some 2, t = 8\<rparr>, \<lparr>obj = Some 1, t = 3\<rparr>, \<lparr>obj = Some 0, t = 0\<rparr>]\<rparr>"

definition dialer3 :: poolDialer where
  "dialer3 = \<lparr>dialed = 3, opened = 3\<rparr>"

text \<open>A dialer that cannot connect: it returns an error, and an object with it.\<close>

definition failing_dial :: "poolDialer \<Rightarrow> (nat iface \<times> error option) \<times> poolDialer" where
  "failing_dial d = ((Some (dialed d), Some (ErrOther ''dial failed'')), d)"

definition failing_pool :: "(nat, poolDialer) Pool" where
  "failing_pool = test_pool\<lparr>New := Some failing_dial\<rparr>"

text \<open>A factory that takes its objects from another pool, one that has none to give.\<close>

definition exhausted_dial :: "poolDialer \<Rightarrow> (nat iface \<times> error option) \<times> poolDialer" where
  "exhausted_dial d = ((None, Some ErrPoolExhausted), d)"

definition nested_pool :: "(nat, poolDialer) Pool" where
  "nested_pool = test_pool\<lparr>New := Some exhausted_dial\<rparr>"

text \<open>As in \<open>TestPoolMaxActive\<close>: at most two objects, both taken.\<close>

definition full_pool :: "(nat, poolDialer) Pool \<times> poolDialer" where
  "full_pool = exec (frozen_clock 0) [CallGet, CallGet] (test_pool\<lparr>MaxActive := 2\<rparr>, dialer0)"

text \<open>A callback that writes down, in order, the objects it is given.\<close>

definition log_drop :: "'a iface \<Rightarrow> 'a iface list \<Rightarrow> 'a iface list" where
  "log_drop x seen = seen @ [x]"

text \<open>A pool with that callback, after object 0 was given back at time 3 and object 1 at
  time 5.\<close>

definition logged_pool :: "(nat, nat iface list) Pool" where
  "logged_pool = (NewPool None 2)\<lparr>DropCallback := Some log_drop, active := 2,
     idle := [\<lparr>obj = Some 1, t = 5\<rparr>, \<lparr>obj = Some 0, t = 3\<rparr>]\<rparr>"

text \<open>As in \<open>TestPoolBorrowCheck\<close>: a check that rejects every object, and the pool after
  one object was taken and given back.\<close>

definition reject :: "nat iface \<Rightarrow> poolDialer \<Rightarrow> error option \<times> poolDialer" where
  "reject x d = (Some (ErrOther ''err''), d)"

definition rejecting_pool :: "(nat, poolDialer) Pool \<times> poolDialer" where
  "rejecting_pool = exec (frozen_clock 0) [CallGet, CallPut (Some 0)]
     (test_pool\<lparr>TestOnBorrow := Some reject\<rparr>, dialer0)"

section \<open>Properties\<close>

subsection \<open>What the two loops of \<open>Get\<close> keep\<close>

lemma sweep_loop_inv:
  "sweep_loop nf d n p w = (p', w') \<Longrightarrow>
     p' = p\<lparr>active := active p', idle := idle p'\<rparr> \<and>
     length (idle p') \<le> length (idle p) \<and>
     active p' - int (length (idle p')) = active p - int (length (idle p))"
proof (induction n arbitrary: p w)
  case 0
  then show ?case by simp
next
  case (Suc n)
  show ?case
  proof (cases "idle p = []")
    case True
    with Suc.prems show ?thesis by simp
  next
    case False
    obtain now w1 where nw: "nf w = (now, w1)" by (cases "nf w")
    show ?thesis
    proof (cases "now < t (last (idle p)) + d")
      case True
      with Suc.prems False nw show ?thesis by simp
    next
      case nexp: False
      let ?q = "release (p\<lparr>idle := butlast (idle p)\<rparr>)"
      from Suc.prems False nw nexp
      have "sweep_loop nf d n ?q (call_drop (DropCallback p) (obj (last (idle p))) w1) = (p', w')"
        by simp
      from Suc.IH [OF this] False show ?thesis
        by (cases "idle p" rule: rev_cases) (auto simp: release_def)
    qed
  qed
qed

lemma reuse_loop_inv:
  "reuse_loop n p w = (b, p', w') \<Longrightarrow>
     p' = p\<lparr>active := active p', idle := idle p'\<rparr> \<and>
     length (idle p') \<le> length (idle p) \<and>
     active p' - int (length (idle p')) =
       active p - int (length (idle p)) + (case b of Borrowed x \<Rightarrow> 1 | NoIdle \<Rightarrow> 0)"
proof (induction n arbitrary: p w)
  case 0
  then show ?case by simp
next
  case (Suc n)
  show ?case
  proof (cases "idle p")
    case Nil
    with Suc.prems show ?thesis by simp
  next
    case (Cons io rest)
    show ?thesis
    proof (cases "TestOnBorrow p")
      case None
      with Suc.prems Cons show ?thesis by auto
    next
      case (Some test)
      obtain r w1 where tw: "test (obj io) w = (r, w1)" by (cases "test (obj io) w")
      show ?thesis
      proof (cases r)
        case None
        with Suc.prems Cons Some tw show ?thesis by auto
      next
        case (Some e)
        with Suc.prems Cons \<open>TestOnBorrow p = Some test\<close> tw
        have "reuse_loop n (release (p\<lparr>idle := rest\<rparr>)) (call_drop (DropCallback p) (obj io) w1)
                = (b, p', w')" by simp
        from Suc.IH [OF this] Cons show ?thesis
          by (simp add: release_def)
      qed
    qed
  qed
qed

lemma reuse_loop_NoIdle:
  "reuse_loop n p w = (NoIdle, p', w') \<Longrightarrow> length (idle p) \<le> n \<Longrightarrow> idle p' = []"
proof (induction n arbitrary: p w)
  case 0
  then show ?case by simp
next
  case (Suc n)
  show ?case
  proof (cases "idle p")
    case Nil
    with Suc.prems show ?thesis by simp
  next
    case (Cons io rest)
    show ?thesis
    proof (cases "TestOnBorrow p")
      case None
      with Suc.prems Cons show ?thesis by auto
    next
      case (Some test)
      obtain r w1 where tw: "test (obj io) w = (r, w1)" by (cases "test (obj io) w")
      show ?thesis
      proof (cases r)
        case None
        with Suc.prems Cons Some tw show ?thesis by auto
      next
        case (Some e)
        with Suc.prems Cons \<open>TestOnBorrow p = Some test\<close> tw
        have "reuse_loop n (release (p\<lparr>idle := rest\<rparr>)) (call_drop (DropCallback p) (obj io) w1)
                = (NoIdle, p', w')" by simp
        from Suc.IH [OF this] Cons Suc.prems(2) show ?thesis
          by (simp add: release_def)
      qed
    qed
  qed
qed

subsection \<open>Accounting of the operations\<close>

lemma pool_chain:
  "p1 = p\<lparr>active := a1, idle := i1\<rparr> \<Longrightarrow> p' = p1\<lparr>active := active p', idle := idle p'\<rparr> \<Longrightarrow>
   p' = p\<lparr>active := active p', idle := idle p'\<rparr>"
  by simp

lemma construct_inv:
  "construct p w = (r, p', w') \<Longrightarrow>
     p' = p\<lparr>active := active p', idle := idle p'\<rparr> \<and> idle p' = idle p \<and>
     active p' = active p + int (length (got r)) + (if r = Panicked then 1 else 0)"
  by (auto simp: construct_def release_def Let_def split: option.splits prod.splits)

lemma get_body_inv:
  assumes "get_body p w = (r, p', w')"
  shows "p' = p\<lparr>active := active p', idle := idle p'\<rparr> \<and>
     length (idle p') \<le> length (idle p) \<and>
     active p' - int (length (idle p')) =
       active p - int (length (idle p)) + int (length (got r)) + (if r = Panicked then 1 else 0)"
proof -
  obtain b p1 w1 where rl: "reuse_loop (length (idle p)) p w = (b, p1, w1)"
    by (cases "reuse_loop (length (idle p)) p w")
  note inv = reuse_loop_inv [OF rl]
  show ?thesis
  proof (cases b)
    case (Borrowed x)
    with assms rl inv show ?thesis by (auto simp: get_body_def)
  next
    case NoIdle
    show ?thesis
    proof (cases "\<not> closed p1 \<and> (MaxActive p1 = 0 \<or> active p1 < MaxActive p1)")
      case True
      with assms rl NoIdle have c: "construct p1 w1 = (r, p', w')"
        by (auto simp: get_body_def)
      note cinv = construct_inv [OF c]
      from inv cinv have "p' = p\<lparr>active := active p', idle := idle p'\<rparr>"
        by (blast intro: pool_chain)
      moreover from inv cinv NoIdle have "length (idle p') \<le> length (idle p)" by simp
      moreover from inv cinv NoIdle have "active p' - int (length (idle p')) =
         active p - int (length (idle p)) + int (length (got r)) + (if r = Panicked then 1 else 0)"
        by simp
      ultimately show ?thesis by blast
    next
      case False
      with assms rl NoIdle inv show ?thesis
        by (auto simp: get_body_def split: if_splits)
    qed
  qed
qed

lemma timeout_sweep_inv:
  "timeout_sweep nf p w = (p', w') \<Longrightarrow>
     p' = p\<lparr>active := active p', idle := idle p'\<rparr> \<and>
     length (idle p') \<le> length (idle p) \<and>
     active p' - int (length (idle p')) = active p - int (length (idle p))"
  by (auto simp: timeout_sweep_def dest: sweep_loop_inv split: if_splits)

lemma Get_inv:
  assumes "Get nf p w = (r, p', w')"
  shows "p' = p\<lparr>active := active p', idle := idle p'\<rparr> \<and>
     length (idle p') \<le> length (idle p) \<and>
     active p' - int (length (idle p')) =
       active p - int (length (idle p)) + int (length (got r)) + (if r = Panicked then 1 else 0)"
proof -
  obtain p1 w1 where sw: "timeout_sweep nf p w = (p1, w1)" by (cases "timeout_sweep nf p w")
  with assms have gb: "get_body p1 w1 = (r, p', w')" by (simp add: Get_def)
  note a = timeout_sweep_inv [OF sw] and b = get_body_inv [OF gb]
  from a b have "p' = p\<lparr>active := active p', idle := idle p'\<rparr>"
    by (blast intro: pool_chain)
  moreover from a b have "length (idle p') \<le> length (idle p)" by simp
  moreover from a b have "active p' - int (length (idle p')) =
       active p - int (length (idle p)) + int (length (got r)) + (if r = Panicked then 1 else 0)"
    by simp
  ultimately show ?thesis by blast
qed

lemma Put_inv:
  "Put nf x p w = (p', w') \<Longrightarrow>
     p' = p\<lparr>active := active p', idle := idle p'\<rparr> \<and>
     active p' - int (length (idle p')) = active p - int (length (idle p)) - 1 \<and>
     (closed p \<longrightarrow> idle p' = idle p) \<and>
     (\<not> closed p \<longrightarrow> int (length (idle p)) \<le> MaxIdle p \<longrightarrow> int (length (idle p')) \<le> MaxIdle p)"
  by (auto simp: Put_def release_def Let_def split: if_splits prod.splits)

lemma Close_inv:
  "Close p w = (p', w') \<Longrightarrow>
     p' = p\<lparr>closed := True, active := active p - int (length (idle p)), idle := []\<rparr>"
  by (auto simp: Close_def Let_def)

subsection \<open>The idle objects are counted as active\<close>

lemma exec_Nil: "exec nf [] s = s"
  by (simp add: exec_def)

lemma exec_Cons: "exec nf (c # cs) s = exec nf cs (step nf c s)"
  by (simp add: exec_def)






subsection \<open>The idle queue is capped, and a closed pool stays closed\<close>


lemma same_config:
  "p' = p\<lparr>active := a, idle := i\<rparr> \<Longrightarrow>
     New p' = New p \<and> TestOnBorrow p' = TestOnBorrow p \<and> DropCallback p' = DropCallback p \<and>
     MaxIdle p' = MaxIdle p \<and> MaxActive p' = MaxActive p \<and> IdleTimeout p' = IdleTimeout p \<and>
     Wait p' = Wait p \<and> closed p' = closed p"
  by simp

lemma step_idle_cap:
  assumes "step nf c (p, w) = (p', w')"
    and "MaxIdle p < 0 \<or> int (length (idle p)) \<le> MaxIdle p"
  shows "MaxIdle p' = MaxIdle p \<and> (MaxIdle p' < 0 \<or> int (length (idle p')) \<le> MaxIdle p')"
proof (cases c)
  case CallGet
  obtain r where g: "Get nf p w = (r, p', w')"
    using assms(1) CallGet by (cases "Get nf p w") simp
  from Get_inv [OF g] have "p' = p\<lparr>active := active p', idle := idle p'\<rparr>"
    and le: "length (idle p') \<le> length (idle p)" by simp_all
  from same_config [OF this(1)] have "MaxIdle p' = MaxIdle p" by simp
  with le assms(2) show ?thesis by auto
next
  case (CallPut x)
  with assms(1) have pt: "Put nf x p w = (p', w')" by simp
  from Put_inv [OF pt] have eq: "p' = p\<lparr>active := active p', idle := idle p'\<rparr>"
    and cl: "closed p \<longrightarrow> idle p' = idle p"
    and op: "\<not> closed p \<longrightarrow> int (length (idle p)) \<le> MaxIdle p \<longrightarrow> int (length (idle p')) \<le> MaxIdle p"
    by simp_all
  from same_config [OF eq] have "MaxIdle p' = MaxIdle p" by simp
  with cl op assms(2) show ?thesis by (cases "closed p") auto
next
  case CallClose
  with assms(1) have "Close p w = (p', w')" by simp
  from Close_inv [OF this] assms(2) show ?thesis by auto
next
  case CallActiveCount
  with assms show ?thesis by auto
next
  case Resume
  obtain r where g: "get_body p w = (r, p', w')"
    using assms(1) Resume by (cases "get_body p w") simp
  from get_body_inv [OF g] have "p' = p\<lparr>active := active p', idle := idle p'\<rparr>"
    and le: "length (idle p') \<le> length (idle p)" by simp_all
  from same_config [OF this(1)] have "MaxIdle p' = MaxIdle p" by simp
  with le assms(2) show ?thesis by auto
qed

lemma exec_idle_cap:
  "exec nf cs (p, w) = (p', w') \<Longrightarrow>
   MaxIdle p < 0 \<or> int (length (idle p)) \<le> MaxIdle p \<Longrightarrow>
   MaxIdle p' = MaxIdle p \<and> (MaxIdle p' < 0 \<or> int (length (idle p')) \<le> MaxIdle p')"
proof (induction cs arbitrary: p w)
  case Nil
  then show ?case by (simp add: exec_Nil)
next
  case (Cons c cs)
  obtain p1 w1 where st: "step nf c (p, w) = (p1, w1)" by (cases "step nf c (p, w)")
  note a = step_idle_cap [OF st Cons.prems(2)]
  from Cons.prems(1) st have "exec nf cs (p1, w1) = (p', w')" by (simp add: exec_Cons)
  moreover from a have "MaxIdle p1 < 0 \<or> int (length (idle p1)) \<le> MaxIdle p1" by blast
  ultimately have "MaxIdle p' = MaxIdle p1 \<and>
      (MaxIdle p' < 0 \<or> int (length (idle p')) \<le> MaxIdle p')" by (rule Cons.IH)
  with a show ?case by auto
qed





text \<open>
  C2. Take a pool that a sequence of calls has produced from an unused one, not closed and
  with \<open>MaxIdle\<close> at least 0. \<open>Put\<close> pushes the object, with the time the clock gives, at
  the front of the idle queue. If the queue is then longer than \<open>MaxIdle\<close>, its last entry
  (the oldest: the new one only when the queue was empty) is removed, \<open>active\<close> goes down by
  one and \<open>DropCallback\<close>, when there is one, is called on the removed object; otherwise
  \<open>active\<close> is unchanged and no callback is called. Either way the queue is at most
  \<open>MaxIdle\<close> long afterwards.
\<close>

theorem Put_trims_to_MaxIdle:
  assumes "fresh p0" and "exec nowFunc cs (p0, w0) = (p, w)"
    and "\<not> closed p" and "0 \<le> MaxIdle p" and "nowFunc w = (now, w1)"
  shows "(let q = \<lparr>obj = x, t = now\<rparr> # idle p in
          if MaxIdle p < int (length q)
          then Put nowFunc x p w =
                 (p\<lparr>active := active p - 1, idle := butlast q\<rparr>,
                  call_drop (DropCallback p) (obj (last q)) w1)
               \<and> last q = (if idle p = [] then \<lparr>obj = x, t = now\<rparr> else last (idle p))
          else Put nowFunc x p w = (p\<lparr>idle := q\<rparr>, w1))
         \<and> int (length (idle (fst (Put nowFunc x p w)))) \<le> MaxIdle p"
proof -
  from assms(1) have "MaxIdle p0 < 0 \<or> int (length (idle p0)) \<le> MaxIdle p0"
    by (auto simp: fresh_def)
  from exec_idle_cap [OF assms(2) this] assms(4)
  have cap: "int (length (idle p)) \<le> MaxIdle p" by simp
  obtain p' w' where pt: "Put nowFunc x p w = (p', w')" by (cases "Put nowFunc x p w")
  from Put_inv [OF pt] assms(3) cap have "int (length (idle p')) \<le> MaxIdle p" by simp
  with pt have "int (length (idle (fst (Put nowFunc x p w)))) \<le> MaxIdle p" by simp
  moreover from assms(3,5)
  have "let q = \<lparr>obj = x, t = now\<rparr> # idle p in
          if MaxIdle p < int (length q)
          then Put nowFunc x p w =
                 (p\<lparr>active := active p - 1, idle := butlast q\<rparr>,
                  call_drop (DropCallback p) (obj (last q)) w1)
               \<and> last q = (if idle p = [] then \<lparr>obj = x, t = now\<rparr> else last (idle p))
          else Put nowFunc x p w = (p\<lparr>idle := q\<rparr>, w1)"
    by (simp add: Put_def release_def Let_def)
  ultimately show ?thesis by blast
qed

theorem Put_trims_to_MaxIdle_witness:
  "fresh test_pool
   \<and> exec (frozen_clock 0) [CallGet, CallGet, CallGet, CallPut (Some 0), CallPut (Some 1)]
        (test_pool, dialer0) = (fst two_idle, snd two_idle)
   \<and> \<not> closed (fst two_idle) \<and> 0 \<le> MaxIdle (fst two_idle)
   \<and> frozen_clock 0 (snd two_idle) = (0, snd two_idle)
   \<and> map obj (idle (fst (Put (frozen_clock 0) (Some 2) (fst two_idle) (snd two_idle))))
        = [Some 2, Some 1]
   \<and> active (fst (Put (frozen_clock 0) (Some 2) (fst two_idle) (snd two_idle))) = 2
   \<and> opened (snd (Put (frozen_clock 0) (Some 2) (fst two_idle) (snd two_idle))) = 2
   \<and> int (length (idle (fst (Put (frozen_clock 0) (Some 2) (fst two_idle) (snd two_idle)))))
        \<le> MaxIdle (fst two_idle)"
proof -
  have a: "fresh test_pool" by code_simp
  have b: "exec (frozen_clock 0) [CallGet, CallGet, CallGet, CallPut (Some 0), CallPut (Some 1)]
        (test_pool, dialer0) = (fst two_idle, snd two_idle)" by (simp add: two_idle_def)
  have c: "\<not> closed (fst two_idle)" by code_simp
  have d: "0 \<le> MaxIdle (fst two_idle)" by code_simp
  have e: "frozen_clock 0 (snd two_idle) = (0, snd two_idle)" by (simp add: frozen_clock_def)
  have f: "map obj (idle (fst (Put (frozen_clock 0) (Some 2) (fst two_idle) (snd two_idle))))
        = [Some 2, Some 1]" by code_simp
  have g: "active (fst (Put (frozen_clock 0) (Some 2) (fst two_idle) (snd two_idle))) = 2"
    by code_simp
  have h: "opened (snd (Put (frozen_clock 0) (Some 2) (fst two_idle) (snd two_idle))) = 2"
    by code_simp
  from Put_trims_to_MaxIdle [OF a b c d e, of "Some 2"] a b c d e f g h show ?thesis by blast
qed



subsection \<open>The sweep of expired entries\<close>


lemma Pool_update_swap: "p\<lparr>idle := i, active := a\<rparr> = p\<lparr>active := a, idle := i\<rparr>"
  by (cases p) simp

lemma sweep_loop_frozen:
  assumes frozen: "\<And>v. nf v = (now, v)"
  shows "length (idle p) \<le> n \<Longrightarrow>
     sweep_loop nf d n p w =
       (p\<lparr>active := active p - int (length (takeWhile (\<lambda>io. d \<le> now - t io) (rev (idle p)))),
          idle := rev (dropWhile (\<lambda>io. d \<le> now - t io) (rev (idle p)))\<rparr>,
        fold (\<lambda>io. call_drop (DropCallback p) (obj io))
          (takeWhile (\<lambda>io. d \<le> now - t io) (rev (idle p))) w)"
proof (induction n arbitrary: p w)
  case 0
  then show ?case by simp
next
  case (Suc n)
  show ?case
  proof (cases "idle p" rule: rev_cases)
    case Nil
    then show ?thesis by simp
  next
    case (snoc xs io)
    show ?thesis
    proof (cases "d \<le> now - t io")
      case False
      with snoc frozen show ?thesis by simp
    next
      case True
      let ?q = "release (p\<lparr>idle := xs\<rparr>)"
      from Suc.prems snoc have "length (idle ?q) \<le> n" by (simp add: release_def)
      from Suc.IH [OF this] True snoc frozen show ?thesis
        by (simp add: release_def)
    qed
  qed
qed

lemma timeout_sweep_oldest:
  assumes "0 < IdleTimeout p" and "idle p = xs @ [io]" and "nf w = (now, w1)"
  shows "timeout_sweep nf p w =
     (if IdleTimeout p \<le> now - t io
      then timeout_sweep nf (p\<lparr>active := active p - 1, idle := xs\<rparr>)
             (call_drop (DropCallback p) (obj io) w1)
      else (p, w1))"
  using assms by (simp add: timeout_sweep_def release_def Pool_update_swap)

lemma expired_prefix:
  "sorted (map t xs) \<Longrightarrow>
     takeWhile (\<lambda>io. d \<le> now - t io) xs = filter (\<lambda>io. d \<le> now - t io) xs \<and>
     dropWhile (\<lambda>io. d \<le> now - t io) xs = filter (\<lambda>io. now - t io < d) xs"
proof (induction xs)
  case Nil
  then show ?case by simp
next
  case (Cons x xs)
  show ?case
  proof (cases "d \<le> now - t x")
    case True
    with Cons show ?thesis by simp
  next
    case False
    from Cons.prems have "\<forall>y \<in> set xs. t x \<le> t y" by simp
    with False have "\<forall>y \<in> set xs. now - t y < d" by auto
    then have "filter (\<lambda>io. d \<le> now - t io) xs = []"
      and "filter (\<lambda>io. now - t io < d) xs = xs"
      by (auto simp: filter_empty_conv filter_id_conv)
    with False show ?thesis by simp
  qed
qed

lemma expired_all:
  assumes "sorted (map t (rev xs))"
  shows "takeWhile (\<lambda>io. d \<le> now - t io) (rev xs) = rev (filter (\<lambda>io. d \<le> now - t io) xs)"
    and "rev (dropWhile (\<lambda>io. d \<le> now - t io) (rev xs)) = filter (\<lambda>io. now - t io < d) xs"
  using expired_prefix [OF assms, of d now] by (simp_all add: rev_filter)

text \<open>
  C5. With \<open>IdleTimeout\<close> at most 0, \<open>Get\<close> evicts nothing for age. With a positive
  \<open>IdleTimeout\<close>, \<open>Get\<close> first reads the clock and looks at the last (oldest) idle entry:
  if its age is at least \<open>IdleTimeout\<close> the entry is removed, \<open>active\<close> goes down by one,
  \<open>DropCallback\<close> (when there is one) is called on its object, and \<open>Get\<close> goes on in the
  same way with the rest; if its age is less, the sweep is over and every entry stays. So
  under a clock that stands still during the call, what is removed is exactly the longest
  run of entries of age at least \<open>IdleTimeout\<close> at the old end of the queue, oldest first;
  and when the entries are in the order of their times, as they are when they were given
  back under a clock that does not go backwards, these are all the entries of age at least
  \<open>IdleTimeout\<close>.
\<close>

theorem Get_timeout_sweep:
  "(IdleTimeout p \<le> 0 \<longrightarrow> Get nowFunc p w = get_body p w)
   \<and> (0 < IdleTimeout p \<longrightarrow> idle p = [] \<longrightarrow> Get nowFunc p w = get_body p w)
   \<and> (0 < IdleTimeout p \<longrightarrow> idle p = xs @ [io] \<longrightarrow> nowFunc w = (now, w1) \<longrightarrow>
        Get nowFunc p w =
          (if IdleTimeout p \<le> now - t io
           then Get nowFunc (p\<lparr>active := active p - 1, idle := xs\<rparr>)
                  (call_drop (DropCallback p) (obj io) w1)
           else get_body p w1))
   \<and> (0 < IdleTimeout p \<longrightarrow> (\<forall>v. nowFunc v = (now, v)) \<longrightarrow>
        Get nowFunc p w =
          get_body
            (p\<lparr>active := active p
                   - int (length (takeWhile (\<lambda>io. IdleTimeout p \<le> now - t io) (rev (idle p)))),
               idle := rev (dropWhile (\<lambda>io. IdleTimeout p \<le> now - t io) (rev (idle p)))\<rparr>)
            (fold (\<lambda>io. call_drop (DropCallback p) (obj io))
               (takeWhile (\<lambda>io. IdleTimeout p \<le> now - t io) (rev (idle p))) w))
   \<and> (0 < IdleTimeout p \<longrightarrow> (\<forall>v. nowFunc v = (now, v)) \<longrightarrow> sorted (map t (rev (idle p))) \<longrightarrow>
        Get nowFunc p w =
          get_body
            (p\<lparr>active := active p
                   - int (length (filter (\<lambda>io. IdleTimeout p \<le> now - t io) (idle p))),
               idle := filter (\<lambda>io. now - t io < IdleTimeout p) (idle p)\<rparr>)
            (fold (\<lambda>io. call_drop (DropCallback p) (obj io))
               (rev (filter (\<lambda>io. IdleTimeout p \<le> now - t io) (idle p))) w))"
proof (intro conjI impI)
  assume "IdleTimeout p \<le> 0"
  then show "Get nowFunc p w = get_body p w" by (simp add: Get_def timeout_sweep_def)
next
  assume "0 < IdleTimeout p" and "idle p = []"
  then show "Get nowFunc p w = get_body p w" by (simp add: Get_def timeout_sweep_def)
next
  assume a: "0 < IdleTimeout p" "idle p = xs @ [io]" "nowFunc w = (now, w1)"
  show "Get nowFunc p w =
          (if IdleTimeout p \<le> now - t io
           then Get nowFunc (p\<lparr>active := active p - 1, idle := xs\<rparr>)
                  (call_drop (DropCallback p) (obj io) w1)
           else get_body p w1)"
    by (simp add: Get_def timeout_sweep_oldest [of p xs io nowFunc w now w1, OF a])
next
  assume a: "0 < IdleTimeout p" and "\<forall>v. nowFunc v = (now, v)"
  then have "\<And>v. nowFunc v = (now, v)" by simp
  from sweep_loop_frozen [of nowFunc now p "length (idle p)" "IdleTimeout p" w, OF this] a
  show "Get nowFunc p w =
          get_body
            (p\<lparr>active := active p
                   - int (length (takeWhile (\<lambda>io. IdleTimeout p \<le> now - t io) (rev (idle p)))),
               idle := rev (dropWhile (\<lambda>io. IdleTimeout p \<le> now - t io) (rev (idle p)))\<rparr>)
            (fold (\<lambda>io. call_drop (DropCallback p) (obj io))
               (takeWhile (\<lambda>io. IdleTimeout p \<le> now - t io) (rev (idle p))) w)"
    by (simp add: Get_def timeout_sweep_def)
next
  assume a: "0 < IdleTimeout p" and "\<forall>v. nowFunc v = (now, v)"
    and s: "sorted (map t (rev (idle p)))"
  then have "\<And>v. nowFunc v = (now, v)" by simp
  from sweep_loop_frozen [of nowFunc now p "length (idle p)" "IdleTimeout p" w, OF this] a
  have "Get nowFunc p w =
          get_body
            (p\<lparr>active := active p
                   - int (length (takeWhile (\<lambda>io. IdleTimeout p \<le> now - t io) (rev (idle p)))),
               idle := rev (dropWhile (\<lambda>io. IdleTimeout p \<le> now - t io) (rev (idle p)))\<rparr>)
            (fold (\<lambda>io. call_drop (DropCallback p) (obj io))
               (takeWhile (\<lambda>io. IdleTimeout p \<le> now - t io) (rev (idle p))) w)"
    by (simp add: Get_def timeout_sweep_def)
  then show "Get nowFunc p w =
          get_body
            (p\<lparr>active := active p
                   - int (length (filter (\<lambda>io. IdleTimeout p \<le> now - t io) (idle p))),
               idle := filter (\<lambda>io. now - t io < IdleTimeout p) (idle p)\<rparr>)
            (fold (\<lambda>io. call_drop (DropCallback p) (obj io))
               (rev (filter (\<lambda>io. IdleTimeout p \<le> now - t io) (idle p))) w)"
    by (simp add: expired_all [OF s])
qed

theorem Get_timeout_sweep_witness:
  "IdleTimeout test_pool \<le> 0
   \<and> Get (frozen_clock 13) test_pool dialer0 = get_body test_pool dialer0
   \<and> 0 < IdleTimeout aged_pool
   \<and> idle aged_pool = [\<lparr>obj = Some 2, t = 8\<rparr>, \<lparr>obj = Some 1, t = 3\<rparr>] @ [\<lparr>obj = Some 0, t = 0\<rparr>]
   \<and> frozen_clock 13 dialer3 = (13, dialer3)
   \<and> Get (frozen_clock 13) aged_pool dialer3 =
        Get (frozen_clock 13)
          (aged_pool\<lparr>active := 2, idle := [\<lparr>obj = Some 2, t = 8\<rparr>, \<lparr>obj = Some 1, t = 3\<rparr>]\<rparr>)
          (dialer3\<lparr>opened := 2\<rparr>)
   \<and> (\<forall>v. frozen_clock 13 v = (13, v :: poolDialer))
   \<and> sorted (map t (rev (idle aged_pool)))
   \<and> Get (frozen_clock 13) aged_pool dialer3 =
        get_body (aged_pool\<lparr>active := 1, idle := [\<lparr>obj = Some 2, t = 8\<rparr>]\<rparr>)
          (dialer3\<lparr>opened := 1\<rparr>)"
proof -
  have s: "sorted (map t (rev (idle aged_pool)))" by (simp add: aged_pool_def)
  have a: "IdleTimeout test_pool \<le> 0" by (simp add: test_pool_def NewPool_def)
  have b: "0 < IdleTimeout aged_pool" by (simp add: aged_pool_def)
  have c: "idle aged_pool =
      [\<lparr>obj = Some 2, t = 8\<rparr>, \<lparr>obj = Some 1, t = 3\<rparr>] @ [\<lparr>obj = Some 0, t = 0\<rparr>]"
    by (simp add: aged_pool_def)
  have d: "frozen_clock 13 dialer3 = (13, dialer3)" by (simp add: frozen_clock_def)
  have e: "\<forall>v. frozen_clock 13 v = (13, v :: poolDialer)" by (simp add: frozen_clock_def)
  have f: "DropCallback aged_pool = Some drop_conn" "active aged_pool = 3" "IdleTimeout aged_pool = 10"
    by (simp_all add: aged_pool_def test_pool_def)
  note inst = Get_timeout_sweep [of test_pool "frozen_clock 13" dialer0]
    Get_timeout_sweep [of aged_pool "frozen_clock 13" dialer3
       "[\<lparr>obj = Some 2, t = 8\<rparr>, \<lparr>obj = Some 1, t = 3\<rparr>]" "\<lparr>obj = Some 0, t = 0\<rparr>" 13 dialer3]
    Get_timeout_sweep [of aged_pool "frozen_clock 13" dialer3 _ _ 13]
  from inst(1) a have 1: "Get (frozen_clock 13) test_pool dialer0 = get_body test_pool dialer0"
    by blast
  from inst(2) b c d have 2: "Get (frozen_clock 13) aged_pool dialer3 =
        Get (frozen_clock 13)
          (aged_pool\<lparr>active := 2, idle := [\<lparr>obj = Some 2, t = 8\<rparr>, \<lparr>obj = Some 1, t = 3\<rparr>]\<rparr>)
          (dialer3\<lparr>opened := 2\<rparr>)"
    by (simp add: f call_drop_def drop_conn_def dialer3_def)
  from inst(3) [THEN conjunct2, THEN conjunct2, THEN conjunct2, THEN conjunct2] b e s
  have 3: "Get (frozen_clock 13) aged_pool dialer3 =
        get_body (aged_pool\<lparr>active := 1, idle := [\<lparr>obj = Some 2, t = 8\<rparr>]\<rparr>)
          (dialer3\<lparr>opened := 1\<rparr>)"
    by (simp add: f c call_drop_def drop_conn_def dialer3_def)
  from a b c d e s 1 2 3 show ?thesis by blast
qed

subsection \<open>What Get returns\<close>

lemma Get_idle_phase:
  "Get nf p w =
     (case idle_phase nf p w of
        (Borrowed x, p2, w2) \<Rightarrow> (Returned x None, p2, w2)
      | (NoIdle, p2, w2) \<Rightarrow>
          if closed p2 then (Returned None (Some ErrPoolClosed), p2, w2)
          else if MaxActive p2 = 0 \<or> active p2 < MaxActive p2 then construct p2 w2
          else if \<not> Wait p2 then (Returned None (Some ErrPoolExhausted), p2, w2)
          else (Blocked, p2, w2))"
  by (simp add: Get_def idle_phase_def get_body_def split: prod.splits)

lemma idle_phase_inv:
  assumes "idle_phase nf p w = (b, p', w')"
  shows "p' = p\<lparr>active := active p', idle := idle p'\<rparr>"
    and "length (idle p') \<le> length (idle p)"
    and "active p' - int (length (idle p')) =
           active p - int (length (idle p)) + (case b of Borrowed x \<Rightarrow> 1 | NoIdle \<Rightarrow> 0)"
    and "b = NoIdle \<Longrightarrow> idle p' = []"
proof -
  obtain p1 w1 where sw: "timeout_sweep nf p w = (p1, w1)" by (cases "timeout_sweep nf p w")
  with assms have rl: "reuse_loop (length (idle p1)) p1 w1 = (b, p', w')"
    by (simp add: idle_phase_def)
  note a = timeout_sweep_inv [OF sw] and b = reuse_loop_inv [OF rl]
  from a b show "p' = p\<lparr>active := active p', idle := idle p'\<rparr>" by (blast intro: pool_chain)
  from a b show "length (idle p') \<le> length (idle p)" by simp
  from a b show "active p' - int (length (idle p')) =
           active p - int (length (idle p)) + (case b of Borrowed x \<Rightarrow> 1 | NoIdle \<Rightarrow> 0)"
    by simp
  show "idle p' = []" if "b = NoIdle"
    using reuse_loop_NoIdle [of "length (idle p1)" p1 w1 p' w'] rl that by simp
qed

text \<open>
  C6. When the sweep and the loop over the idle queue hand out nothing, the pool is open
  and has room, and the factory returns an error, \<open>Get\<close> returns a nil object with that
  very error, and \<open>active\<close> is what it was before the factory was called: the pool is
  left exactly as the sweep and the loop left it.
\<close>

theorem factory_error_is_returned:
  assumes "idle_phase nowFunc p w = (NoIdle, p2, w2)"
    and "\<not> closed p2" and "MaxActive p2 = 0 \<or> active p2 < MaxActive p2"
    and "New p2 = Some newFunc" and "newFunc w2 = ((x, Some e), w3)"
  shows "Get nowFunc p w = (Returned None (Some e), p2, w3)
         \<and> active (fst (snd (Get nowFunc p w))) = active p2"
  using assms by (simp add: Get_idle_phase construct_def release_def)

theorem factory_error_is_returned_witness:
  "idle_phase (frozen_clock 0) failing_pool dialer0 = (NoIdle, failing_pool, dialer0)
   \<and> \<not> closed failing_pool
   \<and> (MaxActive failing_pool = 0 \<or> active failing_pool < MaxActive failing_pool)
   \<and> New failing_pool = Some failing_dial
   \<and> failing_dial dialer0 = ((Some 0, Some (ErrOther ''dial failed'')), dialer0)
   \<and> Get (frozen_clock 0) failing_pool dialer0
        = (Returned None (Some (ErrOther ''dial failed'')), failing_pool, dialer0)"
proof -
  have a: "idle_phase (frozen_clock 0) failing_pool dialer0 = (NoIdle, failing_pool, dialer0)"
    by (simp add: idle_phase_def timeout_sweep_def failing_pool_def test_pool_def NewPool_def)
  have b: "\<not> closed failing_pool" by (simp add: failing_pool_def test_pool_def NewPool_def)
  have c: "MaxActive failing_pool = 0 \<or> active failing_pool < MaxActive failing_pool"
    by (simp add: failing_pool_def test_pool_def NewPool_def)
  have d: "New failing_pool = Some failing_dial" by (simp add: failing_pool_def)
  have e: "failing_dial dialer0 = ((Some 0, Some (ErrOther ''dial failed'')), dialer0)"
    by (simp add: failing_dial_def dialer0_def)
  from factory_error_is_returned [OF a b c d e] a b c d e show ?thesis by blast
qed

lemma construct_Panicked: "fst (construct p w) = Panicked \<longleftrightarrow> New p = None"
  by (auto simp: construct_def Let_def split: option.splits prod.splits)

lemma idle_phase_New:
  assumes "idle_phase nf p w = (b, p2, w2)"
  shows "New p2 = New p"
  using same_config [OF idle_phase_inv(1) [OF assms]] by simp

text \<open>
  C10. \<open>Get\<close> calls \<open>New\<close> without looking whether it is nil. When the sweep and the loop
  over the idle queue hand out nothing and the pool is open and has room, a pool whose
  \<open>New\<close> is nil panics, the slot it had reserved still counted in \<open>active\<close>; and \<open>Get\<close>
  panics in no other case, so with a factory it always returns or waits.
\<close>

theorem nil_factory_panics:
  "(idle_phase nowFunc p w = (NoIdle, p2, w2) \<longrightarrow> \<not> closed p2 \<longrightarrow>
      (MaxActive p2 = 0 \<or> active p2 < MaxActive p2) \<longrightarrow> New p = None \<longrightarrow>
      Get nowFunc p w = (Panicked, p2\<lparr>active := active p2 + 1\<rparr>, w2))
   \<and> (fst (Get nowFunc p w) = Panicked \<longleftrightarrow>
        New p = None \<and>
        (case idle_phase nowFunc p w of
           (NoIdle, p2, w2) \<Rightarrow> \<not> closed p2 \<and> (MaxActive p2 = 0 \<or> active p2 < MaxActive p2)
         | (Borrowed x, p2, w2) \<Rightarrow> False))"
proof -
  obtain b q v where ip: "idle_phase nowFunc p w = (b, q, v)"
    by (cases "idle_phase nowFunc p w")
  note n = idle_phase_New [OF ip]
  have "fst (Get nowFunc p w) = Panicked \<longleftrightarrow>
        New p = None \<and>
        (case idle_phase nowFunc p w of
           (NoIdle, p2, w2) \<Rightarrow> \<not> closed p2 \<and> (MaxActive p2 = 0 \<or> active p2 < MaxActive p2)
         | (Borrowed x, p2, w2) \<Rightarrow> False)"
    using ip n by (cases b) (auto simp: Get_idle_phase construct_Panicked)
  moreover have "Get nowFunc p w = (Panicked, p2\<lparr>active := active p2 + 1\<rparr>, w2)"
    if "idle_phase nowFunc p w = (NoIdle, p2, w2)" "\<not> closed p2"
      "MaxActive p2 = 0 \<or> active p2 < MaxActive p2" "New p = None"
    using that idle_phase_New [OF that(1)] by (simp add: Get_idle_phase construct_def)
  ultimately show ?thesis by blast
qed

theorem nil_factory_panics_witness:
  "idle_phase (frozen_clock 0) (test_pool\<lparr>New := None\<rparr>) dialer0
      = (NoIdle, test_pool\<lparr>New := None\<rparr>, dialer0)
   \<and> \<not> closed (test_pool\<lparr>New := None\<rparr>)
   \<and> (MaxActive (test_pool\<lparr>New := None\<rparr>) = 0
        \<or> active (test_pool\<lparr>New := None\<rparr>) < MaxActive (test_pool\<lparr>New := None\<rparr>))
   \<and> New (test_pool\<lparr>New := None\<rparr>) = None
   \<and> Get (frozen_clock 0) (test_pool\<lparr>New := None\<rparr>) dialer0
        = (Panicked, test_pool\<lparr>New := None, active := 1\<rparr>, dialer0)"
proof -
  let ?p = "test_pool\<lparr>New := None\<rparr>"
  have a: "idle_phase (frozen_clock 0) ?p dialer0 = (NoIdle, ?p, dialer0)"
    by (simp add: idle_phase_def timeout_sweep_def test_pool_def NewPool_def)
  have b: "\<not> closed ?p" by (simp add: test_pool_def NewPool_def)
  have c: "MaxActive ?p = 0 \<or> active ?p < MaxActive ?p" by (simp add: test_pool_def NewPool_def)
  have d: "New ?p = None" by simp
  have e: "active ?p = 0" by (simp add: test_pool_def NewPool_def)
  from nil_factory_panics [of "frozen_clock 0" ?p dialer0 ?p dialer0] a b c d
  have "Get (frozen_clock 0) ?p dialer0 = (Panicked, ?p\<lparr>active := active ?p + 1\<rparr>, dialer0)"
    by blast
  with e have "Get (frozen_clock 0) ?p dialer0 = (Panicked, ?p\<lparr>active := 1\<rparr>, dialer0)" by simp
  with a b c d show ?thesis by blast
qed

lemma construct_error:
  "fst (construct p w) = Returned None (Some e) \<longleftrightarrow>
     (\<exists>newFunc. New p = Some newFunc \<and> snd (fst (newFunc w)) = Some e)"
  by (auto simp: construct_def Let_def split: option.splits prod.splits)

lemma idle_phase_config:
  assumes "idle_phase nf p w = (b, p2, w2)"
  shows "New p2 = New p \<and> MaxActive p2 = MaxActive p \<and> Wait p2 = Wait p \<and> closed p2 = closed p"
  using same_config [OF idle_phase_inv(1) [OF assms]] by simp

lemma Get_exhausted_iff:
  "fst (Get nf p w) = Returned None (Some ErrPoolExhausted) \<longleftrightarrow>
     (\<exists>p2 w2. idle_phase nf p w = (NoIdle, p2, w2) \<and> idle p2 = [] \<and> \<not> closed p \<and>
        (\<not> Wait p \<and> MaxActive p \<noteq> 0 \<and> MaxActive p \<le> active p2
         \<or> (MaxActive p = 0 \<or> active p2 < MaxActive p) \<and>
           (\<exists>newFunc. New p = Some newFunc \<and> snd (fst (newFunc w2)) = Some ErrPoolExhausted)))"
proof -
  obtain b q v where ip: "idle_phase nf p w = (b, q, v)" by (cases "idle_phase nf p w")
  note cfg = idle_phase_config [OF ip]
  show ?thesis
  proof (cases b)
    case (Borrowed x)
    with ip show ?thesis by (simp add: Get_idle_phase)
  next
    case NoIdle
    with ip have em: "idle q = []" by (simp add: idle_phase_inv(4))
    from ip NoIdle cfg em show ?thesis
      by (auto simp: Get_idle_phase construct_error)
  qed
qed

text \<open>
  \<open>Get\<close> passes on whatever error the factory returns, also \<open>ErrPoolExhausted\<close>: a pool
  without a limit on \<open>active\<close> can return it.
\<close>

theorem factory_can_return_ErrPoolExhausted:
  "MaxActive nested_pool = 0
   \<and> Get (frozen_clock 0) nested_pool dialer0
       = (Returned None (Some ErrPoolExhausted), nested_pool, dialer0)"
  by (simp add: Get_def timeout_sweep_def get_body_def construct_def release_def
      nested_pool_def test_pool_def NewPool_def exhausted_dial_def)

text \<open>
  C3, as the code has it. \<open>Get\<close> returns a nil object with \<open>ErrPoolExhausted\<close> exactly when the sweep
  and the loop over the idle queue hand out nothing (the queue is then empty), the pool is
  not closed, and either \<open>Wait\<close> is false, \<open>MaxActive\<close> is not 0 and \<open>active\<close> has
  reached \<open>MaxActive\<close>, or the pool has room and the factory itself returns
  \<open>ErrPoolExhausted\<close>. So for a factory that never returns \<open>ErrPoolExhausted\<close> the first
  case is the only one, and with \<open>MaxActive = 0\<close> \<open>Get\<close> never returns it.
\<close>

theorem Get_exhausted:
  "(fst (Get nowFunc p w) = Returned None (Some ErrPoolExhausted) \<longleftrightarrow>
     (\<exists>p2 w2. idle_phase nowFunc p w = (NoIdle, p2, w2) \<and> idle p2 = [] \<and> \<not> closed p \<and>
        (\<not> Wait p \<and> MaxActive p \<noteq> 0 \<and> MaxActive p \<le> active p2
         \<or> (MaxActive p = 0 \<or> active p2 < MaxActive p) \<and>
           (\<exists>newFunc. New p = Some newFunc \<and> snd (fst (newFunc w2)) = Some ErrPoolExhausted))))
   \<and> ((\<forall>newFunc v. New p = Some newFunc \<longrightarrow> snd (fst (newFunc v)) \<noteq> Some ErrPoolExhausted) \<longrightarrow>
        (fst (Get nowFunc p w) = Returned None (Some ErrPoolExhausted) \<longleftrightarrow>
           (\<exists>p2 w2. idle_phase nowFunc p w = (NoIdle, p2, w2) \<and> idle p2 = [] \<and> \<not> closed p \<and>
              \<not> Wait p \<and> MaxActive p \<noteq> 0 \<and> MaxActive p \<le> active p2))
        \<and> (MaxActive p = 0 \<longrightarrow>
             fst (Get nowFunc p w) \<noteq> Returned None (Some ErrPoolExhausted)))"
proof -
  note iff = Get_exhausted_iff [of nowFunc p w]
  have "(fst (Get nowFunc p w) = Returned None (Some ErrPoolExhausted) \<longleftrightarrow>
           (\<exists>p2 w2. idle_phase nowFunc p w = (NoIdle, p2, w2) \<and> idle p2 = [] \<and> \<not> closed p \<and>
              \<not> Wait p \<and> MaxActive p \<noteq> 0 \<and> MaxActive p \<le> active p2))
        \<and> (MaxActive p = 0 \<longrightarrow>
             fst (Get nowFunc p w) \<noteq> Returned None (Some ErrPoolExhausted))"
    if "\<forall>newFunc v. New p = Some newFunc \<longrightarrow> snd (fst (newFunc v)) \<noteq> Some ErrPoolExhausted"
    using that iff by blast
  with iff show ?thesis by blast
qed

theorem Get_exhausted_witness:
  "New (fst full_pool) = Some dial
   \<and> fst (Get (frozen_clock 0) (fst full_pool) (snd full_pool))
        = Returned None (Some ErrPoolExhausted)
   \<and> idle_phase (frozen_clock 0) (fst full_pool) (snd full_pool)
        = (NoIdle, fst full_pool, snd full_pool)
   \<and> idle (fst full_pool) = [] \<and> \<not> closed (fst full_pool) \<and> \<not> Wait (fst full_pool)
   \<and> MaxActive (fst full_pool) \<noteq> 0 \<and> MaxActive (fst full_pool) \<le> active (fst full_pool)"
proof -
  have fp: "full_pool = (test_pool\<lparr>MaxActive := 2, active := 2\<rparr>, \<lparr>dialed = 2, opened = 2\<rparr>)"
    by (simp add: full_pool_def exec_def Get_def timeout_sweep_def get_body_def construct_def
        dial_def test_pool_def NewPool_def dialer0_def)
  have a: "\<forall>newFunc v. New (fst full_pool) = Some newFunc \<longrightarrow>
       snd (fst (newFunc v)) \<noteq> Some ErrPoolExhausted"
    by (simp add: fp test_pool_def NewPool_def dial_def)
  have b: "idle_phase (frozen_clock 0) (fst full_pool) (snd full_pool)
        = (NoIdle, fst full_pool, snd full_pool)"
    by (simp add: fp idle_phase_def timeout_sweep_def test_pool_def NewPool_def)
  have c: "idle (fst full_pool) = [] \<and> \<not> closed (fst full_pool) \<and> \<not> Wait (fst full_pool)
   \<and> MaxActive (fst full_pool) \<noteq> 0 \<and> MaxActive (fst full_pool) \<le> active (fst full_pool)"
    by (simp add: fp test_pool_def NewPool_def)
  from Get_exhausted [of "frozen_clock 0" "fst full_pool" "snd full_pool"] a b c
  have "fst (Get (frozen_clock 0) (fst full_pool) (snd full_pool))
        = Returned None (Some ErrPoolExhausted)" by blast
  moreover have "New (fst full_pool) = Some dial" by (simp add: fp test_pool_def NewPool_def)
  ultimately show ?thesis using b c by blast
qed

subsection \<open>Order: the newest idle object first\<close>

text \<open>
  C7. On a pool that is not closed, has no \<open>TestOnBorrow\<close> and no idle timeout, and has
  room for two more idle objects, after \<open>Put a\<close> and then \<open>Put b\<close> the next \<open>Get\<close>
  returns \<open>b\<close>, with a nil error, and leaves \<open>a\<close> at the front of the idle queue.
\<close>

theorem Get_returns_last_Put:
  assumes "\<not> closed p" and "TestOnBorrow p = None" and "IdleTimeout p \<le> 0"
    and "int (length (idle p)) + 2 \<le> MaxIdle p"
  shows "(case Put nowFunc a p w of (p1, w1) \<Rightarrow>
           case Put nowFunc b p1 w1 of (p2, w2) \<Rightarrow>
             fst (Get nowFunc p2 w2) = Returned b None
             \<and> map obj (idle (fst (snd (Get nowFunc p2 w2)))) = a # map obj (idle p))"
  using assms
  by (simp add: Put_def Get_def timeout_sweep_def get_body_def Let_def split: prod.splits)

theorem Get_returns_last_Put_witness:
  "\<not> closed test_pool \<and> TestOnBorrow test_pool = None \<and> IdleTimeout test_pool \<le> 0
   \<and> int (length (idle test_pool)) + 2 \<le> MaxIdle test_pool
   \<and> (case Put (frozen_clock 0) (Some 4) test_pool dialer0 of (p1, w1) \<Rightarrow>
           case Put (frozen_clock 0) (Some 9) p1 w1 of (p2, w2) \<Rightarrow>
             fst (Get (frozen_clock 0) p2 w2) = Returned (Some 9) None
             \<and> map obj (idle (fst (snd (Get (frozen_clock 0) p2 w2))))
                 = Some 4 # map obj (idle test_pool))"
proof -
  have a: "\<not> closed test_pool" and b: "TestOnBorrow test_pool = None"
    and c: "IdleTimeout test_pool \<le> 0" and d: "int (length (idle test_pool)) + 2 \<le> MaxIdle test_pool"
    by (simp_all add: test_pool_def NewPool_def)
  from Get_returns_last_Put [OF a b c d, where nowFunc = "frozen_clock 0" and a = "Some 4"
      and w = dialer0 and b = "Some 9"] a b c d
  show ?thesis by blast
qed

lemma fold_log_drop: "fold (\<lambda>io. log_drop (obj io)) xs seen = seen @ map obj xs"
  by (induction xs arbitrary: seen) (simp_all add: log_drop_def)

lemma fold_call_drop:
  "fold (\<lambda>io. call_drop cb (obj io)) xs v =
     (case cb of None \<Rightarrow> v | Some d \<Rightarrow> fold (\<lambda>io. d (obj io)) xs v)"
  by (induction xs arbitrary: v) (simp_all add: call_drop_def split: option.splits)

text \<open>
  \<open>Close\<close> calls \<open>DropCallback\<close> from the front of the queue on: the object given back
  last comes first.
\<close>

theorem Close_drops_newest_first:
  "map obj (rev (idle logged_pool)) = [Some 0, Some 1]
   \<and> snd (Close logged_pool []) = [Some 1, Some 0]"
  by (simp add: Close_def logged_pool_def log_drop_def)

text \<open>
  C9, as the code has it. \<open>Close\<close> empties the idle queue, sets \<open>closed\<close>, takes the length of the
  queue off \<open>active\<close>, and then calls \<open>DropCallback\<close> (when there is one) once on every
  object that was in the queue, from the front of the queue to its back, that is from the
  newest to the oldest: a callback that writes down its arguments adds the objects of the
  queue in that order.
\<close>

theorem Close_drains:
  "Close p w =
     (p\<lparr>closed := True, active := active p - int (length (idle p)), idle := []\<rparr>,
      fold (\<lambda>io. call_drop (DropCallback p) (obj io)) (idle p) w)
   \<and> (DropCallback q = Some log_drop \<longrightarrow> snd (Close q seen) = seen @ map obj (idle q))"
proof -
  have "snd (Close p w) = fold (\<lambda>io. call_drop (DropCallback p) (obj io)) (idle p) w"
    by (simp add: Close_def Let_def fold_call_drop)
  moreover have "fst (Close p w) =
      p\<lparr>closed := True, active := active p - int (length (idle p)), idle := []\<rparr>"
    using Close_inv [of p w "fst (Close p w)" "snd (Close p w)"] by simp
  ultimately have "Close p w =
     (p\<lparr>closed := True, active := active p - int (length (idle p)), idle := []\<rparr>,
      fold (\<lambda>io. call_drop (DropCallback p) (obj io)) (idle p) w)"
    by (simp add: prod_eq_iff)
  then show ?thesis by (simp add: Close_def Let_def fold_log_drop)
qed

theorem Close_drains_witness:
  "DropCallback logged_pool = Some log_drop
   \<and> snd (Close logged_pool [Some 7]) = [Some 7, Some 1, Some 0]
   \<and> fst (Close logged_pool [Some 7]) = logged_pool\<lparr>closed := True, active := 0, idle := []\<rparr>"
proof -
  have a: "DropCallback logged_pool = Some log_drop" by (simp add: logged_pool_def)
  have b: "idle logged_pool = [\<lparr>obj = Some 1, t = 5\<rparr>, \<lparr>obj = Some 0, t = 3\<rparr>]"
    "active logged_pool = 2" by (simp_all add: logged_pool_def)
  from Close_drains [of logged_pool "[Some 7]" logged_pool "[Some 7]"] a b
  show ?thesis by (simp add: call_drop_def log_drop_def)
qed

subsection \<open>A rejected idle object is dropped, not reported\<close>

lemma pool_update_twice:
  "p1 = p\<lparr>active := a1, idle := i1\<rparr> \<Longrightarrow>
   p1\<lparr>active := a, idle := i\<rparr> = p\<lparr>active := a, idle := i\<rparr>"
  by simp

lemma reuse_loop_all_rejected:
  assumes "\<forall>x v. fst (test x v) \<noteq> None"
  shows "TestOnBorrow p = Some test \<Longrightarrow> length (idle p) \<le> n \<Longrightarrow>
     \<exists>w'. reuse_loop n p w =
       (NoIdle, p\<lparr>active := active p - int (length (idle p)), idle := []\<rparr>, w')"
proof (induction n arbitrary: p w)
  case 0
  then show ?case by simp
next
  case (Suc n)
  show ?case
  proof (cases "idle p")
    case Nil
    then show ?thesis by simp
  next
    case (Cons io rest)
    obtain r w1 where tw: "test (obj io) w = (r, w1)" by (cases "test (obj io) w")
    with assms obtain e where r: "r = Some e" by (metis fst_conv not_Some_eq)
    let ?q = "release (p\<lparr>idle := rest\<rparr>)"
    from Suc.prems Cons have "TestOnBorrow ?q = Some test" and "length (idle ?q) \<le> n"
      by (simp_all add: release_def)
    from Suc.IH [OF this, of "call_drop (DropCallback p) (obj io) w1"] obtain w' where
      "reuse_loop n ?q (call_drop (DropCallback p) (obj io) w1) =
         (NoIdle, ?q\<lparr>active := active ?q - int (length (idle ?q)), idle := []\<rparr>, w')" by blast
    with Suc.prems(1) Cons tw r show ?thesis
      by (simp add: release_def)
  qed
qed

lemma get_body_rejected:
  assumes "idle p = io # rest" and "TestOnBorrow p = Some test"
    and "test (obj io) w = (Some e, w1)"
  shows "get_body p w =
     get_body (p\<lparr>active := active p - 1, idle := rest\<rparr>) (call_drop (DropCallback p) (obj io) w1)"
  using assms by (simp add: get_body_def release_def Pool_update_swap)

lemma Get_error_origin:
  assumes "fst (Get nf p w) = Returned x (Some e)"
  shows "x = None \<and> (e = ErrPoolClosed \<and> closed p \<or> e = ErrPoolExhausted \<and> \<not> closed p
           \<or> (\<exists>newFunc v. New p = Some newFunc \<and> snd (fst (newFunc v)) = Some e))"
proof -
  obtain b q v where ip: "idle_phase nf p w = (b, q, v)" by (cases "idle_phase nf p w")
  note cfg = idle_phase_config [OF ip]
  show ?thesis
  proof (cases b)
    case (Borrowed y)
    with ip assms show ?thesis by (simp add: Get_idle_phase)
  next
    case NoIdle
    show ?thesis
    proof (cases "\<not> closed q \<and> (MaxActive q = 0 \<or> active q < MaxActive q)")
      case True
      with ip NoIdle assms have c: "fst (construct q v) = Returned x (Some e)"
        by (auto simp: Get_idle_phase)
      then have "x = None"
        by (auto simp: construct_def Let_def split: option.splits prod.splits)
      with c construct_error [of q v e] cfg show ?thesis by auto
    next
      case False
      with ip NoIdle assms cfg show ?thesis
        by (auto simp: Get_idle_phase split: if_splits)
    qed
  qed
qed

lemma Get_all_rejected:
  assumes "TestOnBorrow p = Some test" and "\<forall>x v. fst (test x v) \<noteq> None"
    and "\<not> closed p" and "MaxActive p = 0 \<or> active p - int (length (idle p)) < MaxActive p"
  shows "\<exists>v. Get nf p w = construct (p\<lparr>active := active p - int (length (idle p)), idle := []\<rparr>) v"
proof -
  obtain p1 w1 where sw: "timeout_sweep nf p w = (p1, w1)" by (cases "timeout_sweep nf p w")
  note a = timeout_sweep_inv [OF sw]
  from a have eq: "p1 = p\<lparr>active := active p1, idle := idle p1\<rparr>" by simp
  from same_config [OF eq] assms(1) have t1: "TestOnBorrow p1 = Some test" by simp
  let ?q = "p1\<lparr>active := active p1 - int (length (idle p1)), idle := []\<rparr>"
  from reuse_loop_all_rejected [OF assms(2) t1, of "length (idle p1)" w1] obtain v where
    rl: "reuse_loop (length (idle p1)) p1 w1 = (NoIdle, ?q, v)" by auto
  from a have "active p1 - int (length (idle p1)) = active p - int (length (idle p))" by simp
  with pool_update_twice [OF eq]
  have q: "?q = p\<lparr>active := active p - int (length (idle p)), idle := []\<rparr>" by simp
  from sw rl have "Get nf p w =
     (if closed ?q then (Returned None (Some ErrPoolClosed), ?q, v)
      else if MaxActive ?q = 0 \<or> active ?q < MaxActive ?q then construct ?q v
      else if \<not> Wait ?q then (Returned None (Some ErrPoolExhausted), ?q, v)
      else (Blocked, ?q, v))"
    by (simp add: Get_def get_body_def)
  with q assms(3,4) have "Get nf p w = construct (p\<lparr>active := active p - int (length (idle p)), idle := []\<rparr>) v"
    by simp
  then show ?thesis by blast
qed

text \<open>
  C8. When \<open>TestOnBorrow\<close> rejects the idle object at the front, \<open>Get\<close> removes it, calls
  \<open>DropCallback\<close> (when there is one) on it, takes one off \<open>active\<close> and goes on with
  the rest of the queue. An error that \<open>Get\<close> returns comes with a nil object and is
  \<open>ErrPoolClosed\<close>, \<open>ErrPoolExhausted\<close> or an error that the factory returned: what
  \<open>TestOnBorrow\<close> returned is not passed on. With a \<open>TestOnBorrow\<close> that rejects every
  object, \<open>Get\<close> on a pool that is not closed and has room once its idle objects are gone
  discards every idle object and returns what constructing a new object gives: an object
  and a nil error when the factory does not fail.
\<close>

theorem rejected_objects_are_replaced:
  "(timeout_sweep nowFunc p w = (p1, w1) \<longrightarrow> idle p1 = io # rest \<longrightarrow>
      TestOnBorrow p = Some test \<longrightarrow> test (obj io) w1 = (Some e, w2) \<longrightarrow>
      Get nowFunc p w =
        get_body (p1\<lparr>active := active p1 - 1, idle := rest\<rparr>)
          (call_drop (DropCallback p) (obj io) w2))
   \<and> (fst (Get nowFunc p w) = Returned x (Some e') \<longrightarrow>
        x = None \<and>
        (e' = ErrPoolClosed \<and> closed p \<or> e' = ErrPoolExhausted \<and> \<not> closed p
         \<or> (\<exists>newFunc v. New p = Some newFunc \<and> snd (fst (newFunc v)) = Some e')))
   \<and> (TestOnBorrow p = Some test \<longrightarrow> (\<forall>y v. fst (test y v) \<noteq> None) \<longrightarrow> \<not> closed p \<longrightarrow>
        (MaxActive p = 0 \<or> active p - int (length (idle p)) < MaxActive p) \<longrightarrow>
        (\<exists>v. Get nowFunc p w =
               construct (p\<lparr>active := active p - int (length (idle p)), idle := []\<rparr>) v)
        \<and> (\<forall>newFunc. New p = Some newFunc \<longrightarrow> (\<forall>v. snd (fst (newFunc v)) = None) \<longrightarrow>
             (\<exists>y v. Get nowFunc p w =
                (Returned y None,
                 p\<lparr>active := active p - int (length (idle p)) + 1, idle := []\<rparr>, v))))"
proof (intro conjI impI allI)
  assume sw: "timeout_sweep nowFunc p w = (p1, w1)" and i: "idle p1 = io # rest"
    and tst: "TestOnBorrow p = Some test" and rej: "test (obj io) w1 = (Some e, w2)"
  from timeout_sweep_inv [OF sw] have "p1 = p\<lparr>active := active p1, idle := idle p1\<rparr>" by simp
  from same_config [OF this] tst
  have t1: "TestOnBorrow p1 = Some test" and "DropCallback p1 = DropCallback p" by simp_all
  with get_body_rejected [of p1 io rest test w1 e w2, OF i t1 rej] sw
  show "Get nowFunc p w =
        get_body (p1\<lparr>active := active p1 - 1, idle := rest\<rparr>)
          (call_drop (DropCallback p) (obj io) w2)"
    by (simp add: Get_def)
next
  assume "fst (Get nowFunc p w) = Returned x (Some e')"
  from Get_error_origin [OF this] show "x = None"
    and "e' = ErrPoolClosed \<and> closed p \<or> e' = ErrPoolExhausted \<and> \<not> closed p
         \<or> (\<exists>newFunc v. New p = Some newFunc \<and> snd (fst (newFunc v)) = Some e')"
    by simp_all
next
  assume a: "TestOnBorrow p = Some test" "\<forall>y v. fst (test y v) \<noteq> None" "\<not> closed p"
    "MaxActive p = 0 \<or> active p - int (length (idle p)) < MaxActive p"
  from Get_all_rejected [OF a]
  show "\<exists>v. Get nowFunc p w =
               construct (p\<lparr>active := active p - int (length (idle p)), idle := []\<rparr>) v" .
next
  fix newFunc
  assume a: "TestOnBorrow p = Some test" "\<forall>y v. fst (test y v) \<noteq> None" "\<not> closed p"
    "MaxActive p = 0 \<or> active p - int (length (idle p)) < MaxActive p"
    and n: "New p = Some newFunc" and ok: "\<forall>v. snd (fst (newFunc v)) = None"
  from Get_all_rejected [OF a, of nowFunc w] obtain v where
    g: "Get nowFunc p w =
          construct (p\<lparr>active := active p - int (length (idle p)), idle := []\<rparr>) v" by blast
  obtain y r v' where f: "newFunc v = ((y, r), v')" by (metis surj_pair)
  with ok have "r = None" by (metis fst_conv snd_conv)
  with g n f have "Get nowFunc p w =
      (Returned y None, p\<lparr>active := active p - int (length (idle p)) + 1, idle := []\<rparr>, v')"
    by (simp add: construct_def Let_def)
  then show "\<exists>y v. Get nowFunc p w =
      (Returned y None, p\<lparr>active := active p - int (length (idle p)) + 1, idle := []\<rparr>, v)"
    by blast
qed

theorem rejected_objects_are_replaced_witness:
  "Get (frozen_clock 0) (fst rejecting_pool) (snd rejecting_pool) =
     get_body ((fst rejecting_pool)\<lparr>active := 0, idle := []\<rparr>) ((snd rejecting_pool)\<lparr>opened := 0\<rparr>)
   \<and> (\<exists>y v. Get (frozen_clock 0) (fst rejecting_pool) (snd rejecting_pool) =
          (Returned y None, (fst rejecting_pool)\<lparr>active := 1, idle := []\<rparr>, v))
   \<and> fst (Get (frozen_clock 0) failing_pool dialer0) = Returned None (Some (ErrOther ''dial failed''))
   \<and> (\<exists>newFunc v. New failing_pool = Some newFunc
         \<and> snd (fst (newFunc v)) = Some (ErrOther ''dial failed''))"
proof -
  let ?p = "fst rejecting_pool" and ?w = "snd rejecting_pool"
  have rp: "rejecting_pool =
      (test_pool\<lparr>TestOnBorrow := Some reject, active := 1, idle := [\<lparr>obj = Some 0, t = 0\<rparr>]\<rparr>,
       \<lparr>dialed = 1, opened = 1\<rparr>)"
    by (simp add: rejecting_pool_def exec_def Get_def timeout_sweep_def get_body_def construct_def
        Put_def frozen_clock_def dial_def test_pool_def NewPool_def dialer0_def)
  have a: "timeout_sweep (frozen_clock 0) ?p ?w = (?p, ?w)"
    by (simp add: rp timeout_sweep_def test_pool_def NewPool_def)
  have b: "idle ?p = \<lparr>obj = Some 0, t = 0\<rparr> # []" by (simp add: rp)
  have c: "TestOnBorrow ?p = Some reject" by (simp add: rp)
  have d: "reject (obj \<lparr>obj = Some 0, t = 0\<rparr>) ?w = (Some (ErrOther ''err''), ?w)"
    by (simp add: reject_def)
  have e: "\<forall>y v. fst (reject y v) \<noteq> None" by (simp add: reject_def)
  have f: "\<not> closed ?p" "MaxActive ?p = 0 \<or> active ?p - int (length (idle ?p)) < MaxActive ?p"
    "New ?p = Some dial" "\<forall>v. snd (fst (dial v)) = None"
    "DropCallback ?p = Some drop_conn" "active ?p = 1"
    by (simp_all add: rp test_pool_def NewPool_def dial_def)
  note inst = rejected_objects_are_replaced [where nowFunc = "frozen_clock 0" and p = ?p
      and w = ?w and ?p1.0 = ?p and ?w1.0 = ?w and io = "\<lparr>obj = Some 0, t = 0\<rparr>" and rest = "[]"
      and test = reject and e = "ErrOther ''err''" and ?w2.0 = ?w]
  from inst a b c d f(5,6) have 1: "Get (frozen_clock 0) ?p ?w =
     get_body (?p\<lparr>active := 0, idle := []\<rparr>) (?w\<lparr>opened := 0\<rparr>)"
    by (simp add: call_drop_def drop_conn_def rp)
  note always = inst [THEN conjunct2, THEN conjunct2, rule_format]
  from always [OF c e [rule_format] f(1,2)] f(3,4)
  have "\<exists>y v. Get (frozen_clock 0) ?p ?w =
          (Returned y None, ?p\<lparr>active := active ?p - int (length (idle ?p)) + 1, idle := []\<rparr>, v)"
    by blast
  moreover have "active ?p - int (length (idle ?p)) + 1 = 1" by (simp add: f(6) b)
  ultimately have 2: "\<exists>y v. Get (frozen_clock 0) ?p ?w =
          (Returned y None, ?p\<lparr>active := 1, idle := []\<rparr>, v)"
    by simp
  have g: "fst (Get (frozen_clock 0) failing_pool dialer0)
      = Returned None (Some (ErrOther ''dial failed''))"
    by (simp add: Get_def timeout_sweep_def get_body_def construct_def release_def
        failing_pool_def failing_dial_def test_pool_def NewPool_def)
  have h: "\<not> closed failing_pool" by (simp add: failing_pool_def test_pool_def NewPool_def)
  from rejected_objects_are_replaced [where nowFunc = "frozen_clock 0" and p = failing_pool
      and w = dialer0 and x = None and e' = "ErrOther ''dial failed''"] g h
  have 3: "\<exists>newFunc v. New failing_pool = Some newFunc
         \<and> snd (fst (newFunc v)) = Some (ErrOther ''dial failed'')"
    by simp
  from 1 2 g 3 show ?thesis by blast
qed

end
